theory Spec2Isabelle
  imports Main "HOL-Library.FSet" "HOL-Library.Product_Lexorder"
begin

section \<open>Data model\<close>

text \<open>
  A cell is a pair of Python integers. Python sets of cells are finite sets. Counts are
  Python integers: \<open>Sentence.mark_mine\<close> decrements without any lower bound, so a count
  may become negative.
\<close>

type_synonym cell = "int \<times> int"

record sentence =
  cells :: "cell fset"
  count :: int

text \<open>
  \<open>MinesweeperAI\<close>: the list \<open>knowledge\<close> holds sentence objects. Every sentence is
  created by \<open>Sentence(cells, count)\<close>, which copies its argument (\<open>set(cells)\<close>), and
  is stored in the list only, so no two list positions share an object and the list of
  records is the whole heap the engine sees.
\<close>

record minesweeper_ai =
  height :: int
  width :: int
  moves_made :: "cell fset"
  mines :: "cell fset"
  safes :: "cell fset"
  knowledge :: "sentence list"

definition MinesweeperAI_init :: "int \<Rightarrow> int \<Rightarrow> minesweeper_ai" where
  "MinesweeperAI_init h w =
     \<lparr>height = h, width = w, moves_made = {||}, mines = {||}, safes = {||}, knowledge = []\<rparr>"

section \<open>Sentence\<close>

text \<open>
  The two queries are methods on an object, modelled in state-passing style: they return
  their result together with the sentence as it is after the call.
\<close>

definition known_mines :: "sentence \<Rightarrow> cell fset \<times> sentence" where
  "known_mines s =
     (if int (fcard (cells s)) = count s \<and> count s \<noteq> 0 then (cells s, s) else ({||}, s))"

definition known_safes :: "sentence \<Rightarrow> cell fset \<times> sentence" where
  "known_safes s = (if count s = 0 then (cells s, s) else ({||}, s))"

definition sentence_mark_mine :: "sentence \<Rightarrow> cell \<Rightarrow> sentence" where
  "sentence_mark_mine s c =
     (if c |\<in>| cells s then s\<lparr>cells := cells s |-| {|c|}, count := count s - 1\<rparr> else s)"

definition sentence_mark_safe :: "sentence \<Rightarrow> cell \<Rightarrow> sentence" where
  "sentence_mark_safe s c =
     (if c |\<in>| cells s then s\<lparr>cells := cells s |-| {|c|}\<rparr> else s)"

section \<open>MinesweeperAI: marking\<close>

definition mark_mine :: "minesweeper_ai \<Rightarrow> cell \<Rightarrow> minesweeper_ai" where
  "mark_mine st c =
     st\<lparr>mines := finsert c (mines st),
        knowledge := map (\<lambda>s. sentence_mark_mine s c) (knowledge st)\<rparr>"

definition mark_safe :: "minesweeper_ai \<Rightarrow> cell \<Rightarrow> minesweeper_ai" where
  "mark_safe st c =
     st\<lparr>safes := finsert c (safes st),
        knowledge := map (\<lambda>s. sentence_mark_safe s c) (knowledge st)\<rparr>"

section \<open>MinesweeperAI.add_knowledge\<close>

text \<open>
  The double loop over \<open>range(cell[0] - 1, cell[0] + 2)\<close> and
  \<open>range(cell[1] - 1, cell[1] + 2)\<close>, with the cell itself skipped, visits the cells of
  \<open>neighbours\<close> in this order.
\<close>

definition neighbours :: "cell \<Rightarrow> cell list" where
  "neighbours c =
     concat (map (\<lambda>i. concat (map (\<lambda>j. if (i, j) = c then [] else [(i, j)])
                                  [snd c - 1 .. snd c + 1]))
                 [fst c - 1 .. fst c + 1])"

definition in_bounds :: "minesweeper_ai \<Rightarrow> cell \<Rightarrow> bool" where
  "in_bounds st c \<longleftrightarrow> 0 \<le> fst c \<and> fst c < height st \<and> 0 \<le> snd c \<and> snd c < width st"

text \<open>
  The body of the double loop, on the pair of the local variables \<open>cells\<close> and
  \<open>count\<close>. The test for a known mine comes before, and outside, the bounds test.
\<close>

definition scan_neighbour :: "minesweeper_ai \<Rightarrow> cell \<Rightarrow> cell fset \<times> int \<Rightarrow> cell fset \<times> int" where
  "scan_neighbour st c acc =
     (let n = (if c |\<in>| mines st then snd acc - 1 else snd acc);
          cs = (if in_bounds st c \<and> c |\<notin>| mines st \<and> c |\<notin>| safes st
                then finsert c (fst acc) else fst acc)
      in (cs, n))"

definition new_sentence :: "minesweeper_ai \<Rightarrow> cell \<Rightarrow> int \<Rightarrow> sentence" where
  "new_sentence st c n =
     (let acc = fold (scan_neighbour st) (neighbours c) ({||}, n)
      in \<lparr>cells = fst acc, count = snd acc\<rparr>)"

text \<open>
  \<open>for cells in mine.copy(): self.mark_mine(cells)\<close> walks a snapshot of the set in
  Python's iteration order, which is not specified. The model walks it in sorted order;
  \<open>mark_mine\<close> and \<open>mark_safe\<close> on different cells commute, so the order does not
  change the result.
\<close>

definition mark_mines :: "minesweeper_ai \<Rightarrow> cell fset \<Rightarrow> minesweeper_ai" where
  "mark_mines st cs = fold (\<lambda>c st. mark_mine st c) (sorted_list_of_fset cs) st"

definition mark_safes :: "minesweeper_ai \<Rightarrow> cell fset \<Rightarrow> minesweeper_ai" where
  "mark_safes st cs = fold (\<lambda>c st. mark_safe st c) (sorted_list_of_fset cs) st"

text \<open>
  One iteration of the loop \<open>for sentence in self.knowledge\<close> of step 4, at list
  position \<open>i\<close>. Both queries are evaluated before any marking. When \<open>mine\<close> is not
  empty the count is not zero, so \<open>safe\<close> is a fresh empty set and is still empty after
  the marking; when \<open>mine\<close> is empty nothing changes between the query and the test of
  \<open>safe\<close>. So that \<open>known_safes\<close> returns the sentence's own set object is not
  observable here.
\<close>

definition resolve_at :: "nat \<Rightarrow> minesweeper_ai \<Rightarrow> minesweeper_ai" where
  "resolve_at i st =
     (let sentence = knowledge st ! i;
          mine = fst (known_mines sentence);
          safe = fst (known_safes sentence);
          st1 = (if mine \<noteq> {||} then mark_mines st mine else st)
      in if safe \<noteq> {||} then mark_safes st1 safe else st1)"

lemma length_knowledge_mark_mines [simp]:
  "length (knowledge (mark_mines st cs)) = length (knowledge st)"
proof -
  have "length (knowledge (fold (\<lambda>c st. mark_mine st c) xs st)) = length (knowledge st)" for xs
    by (induction xs arbitrary: st) (simp_all add: mark_mine_def)
  then show ?thesis by (simp add: mark_mines_def)
qed

lemma length_knowledge_mark_safes [simp]:
  "length (knowledge (mark_safes st cs)) = length (knowledge st)"
proof -
  have "length (knowledge (fold (\<lambda>c st. mark_safe st c) xs st)) = length (knowledge st)" for xs
    by (induction xs arbitrary: st) (simp_all add: mark_safe_def)
  then show ?thesis by (simp add: mark_safes_def)
qed

lemma length_knowledge_resolve_at [simp]:
  "length (knowledge (resolve_at i st)) = length (knowledge st)"
  by (simp add: resolve_at_def Let_def)

text \<open>
  Step 4. A Python list iterator compares its index with the current length of the list
  before every step; the marking never changes the length.
\<close>

function direct_pass :: "nat \<Rightarrow> minesweeper_ai \<Rightarrow> minesweeper_ai" where
  "direct_pass i st =
     (if i < length (knowledge st) then direct_pass (Suc i) (resolve_at i st) else st)"
  by pat_completeness auto
termination
  by (relation "measure (\<lambda>(i, st). length (knowledge st) - i)") auto

declare direct_pass.simps [simp del]

text \<open>
  Step 5. Both loops run over \<open>self.knowledge\<close> while the body appends to it, so both
  iterators see the appended sentences. The inner loop either runs to the end of the list
  or executes \<open>return None\<close>, which leaves \<open>add_knowledge\<close> altogether.
\<close>

datatype 'a flow = Returned 'a | Completed 'a

text \<open>
  \<open>set1\<close> is the object at the outer position; step 5 changes no sentence, it only
  appends to the list, so the model passes the sentence itself.
\<close>

definition appendable :: "sentence \<Rightarrow> sentence \<Rightarrow> bool" where
  "appendable set1 set2 \<longleftrightarrow>
     \<not> (count set1 = 0 \<or> count set2 = 0) \<and> cells set1 \<noteq> cells set2 \<and>
     \<not> (fcard (cells set1) = 0 \<or> fcard (cells set2) = 0) \<and> cells set1 |\<subseteq>| cells set2"

definition difference :: "sentence \<Rightarrow> sentence \<Rightarrow> sentence" where
  "difference set1 set2 =
     \<lparr>cells = cells set2 |-| cells set1, count = count set2 - count set1\<rparr>"

lemma difference_not_appendable:
  "appendable set1 set2 \<Longrightarrow> \<not> appendable set1 (difference set1 set2)"
  by (auto simp: appendable_def difference_def)

function subset_inner :: "sentence \<Rightarrow> nat \<Rightarrow> sentence list \<Rightarrow> sentence list flow" where
  "subset_inner set1 j kb =
     (if j < length kb then
        (let set2 = kb ! j in
         if count set1 = 0 \<or> count set2 = 0 then subset_inner set1 (Suc j) kb
         else if cells set1 = cells set2 then subset_inner set1 (Suc j) kb
         else if fcard (cells set1) = 0 \<or> fcard (cells set2) = 0 then subset_inner set1 (Suc j) kb
         else if cells set1 |\<subseteq>| cells set2 then
           subset_inner set1 (Suc j) (kb @ [difference set1 set2])
         else Returned kb)
      else Completed kb)"
  by pat_completeness auto
termination
proof (relation "measures [\<lambda>(set1, j, kb). length (filter (appendable set1) (drop j kb)),
                           \<lambda>(set1, j, kb). length kb - j]", goal_cases)
  case 1
  show ?case by simp
next
  case (2 set1 j kb set2)
  then show ?case
    by (simp add: Cons_nth_drop_Suc [symmetric] appendable_def)
next
  case (3 set1 j kb set2)
  then show ?case
    by (simp add: Cons_nth_drop_Suc [symmetric] appendable_def)
next
  case (4 set1 j kb set2)
  then show ?case
    by (simp add: Cons_nth_drop_Suc [symmetric] appendable_def)
next
  case (5 set1 j kb set2)
  then have app: "appendable set1 (kb ! j)"
    by (simp add: appendable_def)
  from 5 have "drop j kb = kb ! j # drop (Suc j) kb"
    by (simp add: Cons_nth_drop_Suc)
  with 5 app difference_not_appendable [OF app] show ?case
    by simp
qed

declare subset_inner.simps [simp del]

text \<open>
  A pair that reaches the \<open>else\<close> branch, \<open>return None\<close>.
\<close>

definition blocking :: "sentence \<Rightarrow> sentence \<Rightarrow> bool" where
  "blocking set1 set2 \<longleftrightarrow>
     \<not> (count set1 = 0 \<or> count set2 = 0) \<and> cells set1 \<noteq> cells set2 \<and>
     \<not> (fcard (cells set1) = 0 \<or> fcard (cells set2) = 0) \<and> \<not> cells set1 |\<subseteq>| cells set2"

lemma difference_blocking:
  assumes "appendable set1 set2" and "count (difference set1 set2) \<noteq> 0"
  shows "blocking set1 (difference set1 set2)"
  using assms by (auto simp: appendable_def blocking_def difference_def)

lemma subset_inner_blocked:
  "j \<le> k \<Longrightarrow> k < length kb \<Longrightarrow> blocking set1 (kb ! k) \<Longrightarrow>
   \<exists>kb'. subset_inner set1 j kb = Returned kb'"
proof (induction set1 j kb rule: subset_inner.induct)
  case (1 set1 j kb)
  show ?case
  proof (cases "k = j")
    case True
    with "1.prems" show ?thesis
      by (subst subset_inner.simps) (simp add: blocking_def)
  next
    case False
    with "1.prems" have k: "Suc j \<le> k" "j < length kb"
      by simp_all
    have nth: "(kb @ [d]) ! k = kb ! k" for d
      using "1.prems" by (simp add: nth_append)
    from "1.prems" k nth "1.IH" show ?thesis
      by (subst subset_inner.simps) (auto simp: Let_def)
  qed
qed

lemma subset_inner_step:
  "j < length kb \<Longrightarrow> subset_inner set1 j kb =
     (if appendable set1 (kb ! j) then subset_inner set1 (Suc j) (kb @ [difference set1 (kb ! j)])
      else if blocking set1 (kb ! j) then Returned kb
      else subset_inner set1 (Suc j) kb)"
  by (subst subset_inner.simps) (auto simp: Let_def appendable_def blocking_def)

lemma subset_inner_end: "\<not> j < length kb \<Longrightarrow> subset_inner set1 j kb = Completed kb"
  by (subst subset_inner.simps) simp

lemma subset_inner_Completed:
  "subset_inner set1 j kb = Completed kb' \<Longrightarrow>
   \<exists>ex. kb' = kb @ ex \<and> (\<forall>e \<in> set ex. count e = 0) \<and> (ex \<noteq> [] \<longrightarrow> count set1 \<noteq> 0)"
proof (induction set1 j kb rule: subset_inner.induct)
  case (1 set1 j kb)
  show ?case
  proof (cases "j < length kb")
    case False
    with "1.prems" show ?thesis
      by (simp add: subset_inner_end)
  next
    case inside: True
    show ?thesis
    proof (cases "appendable set1 (kb ! j)")
      case False
      with inside "1.prems" have run: "subset_inner set1 (Suc j) kb = Completed kb'"
        and nb: "\<not> blocking set1 (kb ! j)"
        by (auto simp: subset_inner_step split: if_splits)
      from False nb consider "count set1 = 0 \<or> count (kb ! j) = 0"
        | "\<not> (count set1 = 0 \<or> count (kb ! j) = 0)" "cells set1 = cells (kb ! j)"
        | "\<not> (count set1 = 0 \<or> count (kb ! j) = 0)" "cells set1 \<noteq> cells (kb ! j)"
          "fcard (cells set1) = 0 \<or> fcard (cells (kb ! j)) = 0"
        unfolding appendable_def blocking_def by argo
      then show ?thesis
      proof cases
        case 1
        from "1.IH"(1) [OF inside refl 1 run] show ?thesis .
      next
        case 2
        from "1.IH"(2) [OF inside refl 2 run] show ?thesis .
      next
        case 3
        from "1.IH"(3) [OF inside refl 3 run] show ?thesis .
      qed
    next
      case True
      let ?d = "difference set1 (kb ! j)"
      from inside True "1.prems" have run: "subset_inner set1 (Suc j) (kb @ [?d]) = Completed kb'"
        by (simp add: subset_inner_step)
      from True have conds: "\<not> (count set1 = 0 \<or> count (kb ! j) = 0)" "cells set1 \<noteq> cells (kb ! j)"
          "\<not> (fcard (cells set1) = 0 \<or> fcard (cells (kb ! j)) = 0)" "cells set1 |\<subseteq>| cells (kb ! j)"
        unfolding appendable_def by blast+
      from "1.IH"(4) [OF inside refl conds run] obtain ex where
        ex: "kb' = (kb @ [?d]) @ ex" "\<forall>e \<in> set ex. count e = 0"
        by auto
      have "count ?d = 0"
      proof (rule ccontr)
        assume "count ?d \<noteq> 0"
        then have "blocking set1 ((kb @ [?d]) ! length kb)"
          using difference_blocking [OF True] by simp
        with inside subset_inner_blocked [of "Suc j" "length kb" "kb @ [?d]" set1]
        obtain r where "subset_inner set1 (Suc j) (kb @ [?d]) = Returned r"
          by auto
        with run show False by simp
      qed
      with ex conds(1) show ?thesis
        by (intro exI [of _ "?d # ex"]) auto
    qed
  qed
qed

text \<open>The outer loop of step 5; its result is the knowledge list when \<open>add_knowledge\<close> returns.\<close>

function subset_pass :: "nat \<Rightarrow> sentence list \<Rightarrow> sentence list" where
  "subset_pass i kb =
     (if i < length kb then
        (case subset_inner (kb ! i) 0 kb of
           Returned kb' \<Rightarrow> kb'
         | Completed kb' \<Rightarrow> subset_pass (Suc i) kb')
      else kb)"
  by pat_completeness auto
termination
proof (relation "measures [\<lambda>(i, kb). length (filter (\<lambda>s. count s \<noteq> 0) (drop i kb)),
                           \<lambda>(i, kb). length kb - i]", goal_cases)
  case 1
  show ?case by simp
next
  case (2 i kb kb')
  then obtain ex where ex: "kb' = kb @ ex" "\<forall>e \<in> set ex. count e = 0"
      "ex \<noteq> [] \<longrightarrow> count (kb ! i) \<noteq> 0"
    using subset_inner_Completed by blast
  from 2 have split: "drop i kb = kb ! i # drop (Suc i) kb"
    by (simp add: Cons_nth_drop_Suc)
  from ex(2) have none: "filter (\<lambda>s. count s \<noteq> 0) ex = []"
    by (simp add: filter_empty_conv)
  show ?case
  proof (cases "count (kb ! i) = 0")
    case True
    with ex have "kb' = kb" by auto
    with 2 True split show ?thesis by simp
  next
    case False
    with 2 ex(1) split none show ?thesis by simp
  qed
qed

declare subset_pass.simps [simp del]

text \<open>\<open>add_knowledge\<close>, steps 1 to 5 in the order of the source.\<close>

definition add_knowledge :: "minesweeper_ai \<Rightarrow> cell \<Rightarrow> int \<Rightarrow> minesweeper_ai" where
  "add_knowledge st c n =
     (let st1 = st\<lparr>moves_made := finsert c (moves_made st)\<rparr>;
          st2 = mark_safe st1 c;
          st3 = st2\<lparr>knowledge := knowledge st2 @ [new_sentence st2 c n]\<rparr>;
          st4 = direct_pass 0 st3
      in st4\<lparr>knowledge := subset_pass 0 (knowledge st4)\<rparr>)"

section \<open>MinesweeperAI: choosing a move\<close>

text \<open>
  \<open>make_random_move\<close> collects the candidates row by row and hands them to
  \<open>random.choice\<close>, which returns the element at an index drawn below the length of the
  list. The draw is the parameter \<open>r\<close>, reduced modulo the length, so that every index
  is some draw's outcome. The method is modelled in state-passing style: it returns its
  result and the engine as it is after the call.
\<close>

definition possibles_moves :: "minesweeper_ai \<Rightarrow> cell list" where
  "possibles_moves st =
     concat (map (\<lambda>i. concat (map (\<lambda>j. if (i, j) |\<notin>| moves_made st \<and> (i, j) |\<notin>| mines st
                                         then [(i, j)] else [])
                                  [0 .. width st - 1]))
                 [0 .. height st - 1])"

definition make_random_move :: "minesweeper_ai \<Rightarrow> nat \<Rightarrow> cell option \<times> minesweeper_ai" where
  "make_random_move st r =
     (let ps = possibles_moves st
      in if length ps \<noteq> 0 then (Some (ps ! (r mod length ps)), st) else (None, st))"

section \<open>Minesweeper: the board that answers the engine\<close>

text \<open>
  \<open>Minesweeper\<close> holds the board as a list of rows of booleans. \<open>board_height\<close> and
  \<open>board_width\<close> are its fields \<open>height\<close> and \<open>width\<close>. Subscripting a Python list
  with a negative index counts from the end, and raises \<open>IndexError\<close> out of range
  (\<open>None\<close> here).
\<close>

record minesweeper =
  board_height :: int
  board_width :: int
  board :: "bool list list"

definition subscript :: "'a list \<Rightarrow> int \<Rightarrow> 'a option" where
  "subscript xs i =
     (let n = int (length xs); k = (if i < 0 then i + n else i)
      in if 0 \<le> k \<and> k < n then Some (xs ! nat k) else None)"

definition is_mine :: "minesweeper \<Rightarrow> cell \<Rightarrow> bool option" where
  "is_mine g c =
     (case subscript (board g) (fst c) of
        None \<Rightarrow> None
      | Some row \<Rightarrow> subscript row (snd c))"

text \<open>
  The body of the double loop of \<open>nearby_mines\<close>, on the local variable \<open>count\<close>. The
  loop visits the cells of \<open>neighbours\<close>; inside the bounds test it reads
  \<open>self.board[i][j]\<close>, the expression \<open>is_mine\<close> returns.
\<close>

definition count_neighbour :: "minesweeper \<Rightarrow> cell \<Rightarrow> int option \<Rightarrow> int option" where
  "count_neighbour g c acc =
     (case acc of
        None \<Rightarrow> None
      | Some n \<Rightarrow>
          if 0 \<le> fst c \<and> fst c < board_height g \<and> 0 \<le> snd c \<and> snd c < board_width g
          then (case is_mine g c of
                  None \<Rightarrow> None
                | Some b \<Rightarrow> Some (if b then n + 1 else n))
          else Some n)"

definition nearby_mines :: "minesweeper \<Rightarrow> cell \<Rightarrow> int option" where
  "nearby_mines g c = fold (count_neighbour g) (neighbours c) (Some 0)"

text \<open>
  An observation \<open>(cell, count)\<close> is truthful for a board when the cell is not a mine and
  the count is what \<open>nearby_mines\<close> returns for it. \<open>observe_all\<close> is a sequence of
  \<open>add_knowledge\<close> calls.
\<close>

definition truthful :: "minesweeper \<Rightarrow> cell \<times> int \<Rightarrow> bool" where
  "truthful g obs \<longleftrightarrow> is_mine g (fst obs) = Some False \<and> nearby_mines g (fst obs) = Some (snd obs)"

definition observe_all :: "minesweeper_ai \<Rightarrow> (cell \<times> int) list \<Rightarrow> minesweeper_ai" where
  "observe_all st obs = fold (\<lambda>ob st. add_knowledge st (fst ob) (snd ob)) obs st"

text \<open>
  The constructor of \<open>Minesweeper\<close> builds a board of \<open>height\<close> rows of \<open>width\<close>
  times \<open>False\<close> and then sets cells drawn with \<open>random.randrange\<close> until the
  requested number of mines is placed. \<open>draws\<close> is the sequence of cells drawn, all
  of them in the grid since they come from \<open>randrange(height)\<close> and
  \<open>randrange(width)\<close>; \<open>place\<close> is the body of the loop on the board. The fields
  \<open>mines\<close> and \<open>mines_found\<close> of the game are not read by the engine and are left out.
\<close>

definition place :: "cell \<Rightarrow> bool list list \<Rightarrow> bool list list" where
  "place c b =
     (if \<not> b ! nat (fst c) ! nat (snd c)
      then b[nat (fst c) := (b ! nat (fst c))[nat (snd c) := True]] else b)"

definition Minesweeper_init :: "int \<Rightarrow> int \<Rightarrow> cell list \<Rightarrow> minesweeper" where
  "Minesweeper_init h w draws =
     \<lparr>board_height = h, board_width = w,
      board = fold place draws (replicate (nat h) (replicate (nat w) False))\<rparr>"

section \<open>Invariants of the knowledge base\<close>

text \<open>The list an inner loop of step 5 leaves, whichever way it ended.\<close>

primrec flow_result :: "'a flow \<Rightarrow> 'a" where
  "flow_result (Returned x) = x"
| "flow_result (Completed x) = x"

text \<open>No sentence holds a cell of \<open>mines\<close> or \<open>safes\<close>.\<close>

definition resolved_apart :: "minesweeper_ai \<Rightarrow> bool" where
  "resolved_apart st \<longleftrightarrow>
     (\<forall>s \<in> set (knowledge st). cells s |\<inter>| (mines st |\<union>| safes st) = {||})"

text \<open>
  The cells of the grid that hold a mine, and soundness of the engine with respect to a
  board of its size: every known mine is a mine, no known safe cell is one, and the count
  of every sentence is the number of mines among its cells.
\<close>

definition mine_cells :: "minesweeper \<Rightarrow> cell set" where
  "mine_cells g =
     {c. 0 \<le> fst c \<and> fst c < board_height g \<and> 0 \<le> snd c \<and> snd c < board_width g \<and>
         is_mine g c = Some True}"

definition sound_sentence :: "minesweeper \<Rightarrow> sentence \<Rightarrow> bool" where
  "sound_sentence g s \<longleftrightarrow> count s = int (card (fset (cells s) \<inter> mine_cells g))"

definition sound :: "minesweeper \<Rightarrow> minesweeper_ai \<Rightarrow> bool" where
  "sound g st \<longleftrightarrow>
     height st = board_height g \<and> width st = board_width g \<and>
     fset (mines st) \<subseteq> mine_cells g \<and> fset (safes st) \<inter> mine_cells g = {} \<and>
     (\<forall>s \<in> set (knowledge st). sound_sentence g s)"

section \<open>The queries of a sentence and the random move\<close>

text \<open>
  C8: \<open>Sentence.known_mines\<close> returns all the cells of the sentence when the count equals
  the number of cells and is not zero, the empty set in every other case, and leaves the
  sentence as it was.
\<close>

theorem known_mines_result:
  "known_mines s =
     ((if int (fcard (cells s)) = count s \<and> count s \<noteq> 0 then cells s else {||}), s)"
  by (simp add: known_mines_def)

text \<open>
  C10: \<open>make_random_move\<close> leaves the engine as it was: the moves made, the known mines,
  the known safe cells and every sentence of the knowledge base.
\<close>

theorem make_random_move_frame:
  "snd (make_random_move st r) = st"
  by (simp add: make_random_move_def Let_def)

lemma set_possibles_moves:
  "set (possibles_moves st) = {c. in_bounds st c \<and> c |\<notin>| moves_made st \<and> c |\<notin>| mines st}"
  by (auto simp: possibles_moves_def in_bounds_def split: if_splits)

text \<open>
  C9: when some cell of the grid is neither in \<open>moves_made\<close> nor in \<open>mines\<close>,
  \<open>make_random_move\<close> returns such a cell, whatever the draw; and it returns \<open>None\<close>
  exactly when every cell of the grid is in \<open>moves_made\<close> or in \<open>mines\<close>.
\<close>

theorem make_random_move_result:
  "((\<exists>c. in_bounds st c \<and> c |\<notin>| moves_made st \<and> c |\<notin>| mines st) \<longrightarrow>
      (\<exists>c. fst (make_random_move st r) = Some c \<and>
           in_bounds st c \<and> c |\<notin>| moves_made st \<and> c |\<notin>| mines st)) \<and>
   (fst (make_random_move st r) = None \<longleftrightarrow>
      (\<forall>c. in_bounds st c \<longrightarrow> c |\<in>| moves_made st \<or> c |\<in>| mines st))"
proof -
  let ?ps = "possibles_moves st"
  have pick: "?ps ! (r mod length ?ps) \<in> set ?ps" if "?ps \<noteq> []"
    using that by simp
  have empty: "?ps = [] \<longleftrightarrow> (\<forall>c. in_bounds st c \<longrightarrow> c |\<in>| moves_made st \<or> c |\<in>| mines st)"
    using set_possibles_moves [of st] by (auto simp: set_empty [symmetric] simp del: set_empty)
  show ?thesis
  proof (cases "?ps = []")
    case True
    with empty show ?thesis
      by (auto simp: make_random_move_def Let_def)
  next
    case False
    with pick have "?ps ! (r mod length ?ps) \<in> set ?ps"
      by blast
    then have "?ps ! (r mod length ?ps) \<in> {c. in_bounds st c \<and> c |\<notin>| moves_made st \<and> c |\<notin>| mines st}"
      by (simp only: set_possibles_moves)
    with False empty show ?thesis
      by (auto simp: make_random_move_def Let_def)
  qed
qed

theorem make_random_move_result_witness:
  "in_bounds (add_knowledge (MinesweeperAI_init 1 4) (0, 1) 1) (0, 0) \<and>
   (0, 0) |\<notin>| moves_made (add_knowledge (MinesweeperAI_init 1 4) (0, 1) 1) \<and>
   (0, 0) |\<notin>| mines (add_knowledge (MinesweeperAI_init 1 4) (0, 1) 1) \<and>
   (\<exists>c. fst (make_random_move (add_knowledge (MinesweeperAI_init 1 4) (0, 1) 1) 7) = Some c \<and>
        in_bounds (add_knowledge (MinesweeperAI_init 1 4) (0, 1) 1) c \<and>
        c |\<notin>| moves_made (add_knowledge (MinesweeperAI_init 1 4) (0, 1) 1) \<and>
        c |\<notin>| mines (add_knowledge (MinesweeperAI_init 1 4) (0, 1) 1))"
proof -
  let ?st = "add_knowledge (MinesweeperAI_init 1 4) (0, 1) 1"
  have free: "in_bounds ?st (0, 0) \<and> (0, 0) |\<notin>| moves_made ?st \<and> (0, 0) |\<notin>| mines ?st"
    by code_simp
  with make_random_move_result [of ?st 7] show ?thesis
    by blast
qed

section \<open>A first observation\<close>

text \<open>
  C7: on an engine for an 8 by 8 grid that knows nothing, \<open>add_knowledge((1, 1), 0)\<close>
  leaves all eight neighbours of \<open>(1, 1)\<close> in \<open>safes\<close> (with \<open>(1, 1)\<close> itself).
\<close>

theorem first_observation_zero:
  "neighbours (1, 1) = [(0, 0), (0, 1), (0, 2), (1, 0), (1, 2), (2, 0), (2, 1), (2, 2)] \<and>
   safes (add_knowledge (MinesweeperAI_init 8 8) (1, 1) 0) =
     {|(0, 0), (0, 1), (0, 2), (1, 0), (1, 1), (1, 2), (2, 0), (2, 1), (2, 2)|}"
  by code_simp

section \<open>Two games on the 8 by 8 board\<close>

text \<open>
  Two short games, evaluated call by call; they serve as concrete inputs below. In the
  first the board has mines at \<open>(0, 1)\<close>, \<open>(1, 0)\<close> and \<open>(1, 1)\<close> and the player reveals
  \<open>(2, 2)\<close> and then \<open>(0, 0)\<close>; in the second the mines are at \<open>(0, 1)\<close> and \<open>(2, 2)\<close>
  and the player reveals \<open>(1, 1)\<close> and then \<open>(0, 0)\<close>.
\<close>

lemma board_height_init [simp]: "board_height (Minesweeper_init h w draws) = h"
  by (simp add: Minesweeper_init_def)

lemma board_width_init [simp]: "board_width (Minesweeper_init h w draws) = w"
  by (simp add: Minesweeper_init_def)

lemma first_game_truthful:
  "list_all (truthful (Minesweeper_init 8 8 [(0, 1), (1, 0), (1, 1)])) [((2, 2), 1), ((0, 0), 3)]"
  by code_simp

lemma first_game_call_1:
  "add_knowledge (MinesweeperAI_init 8 8) (2, 2) 1 =
     \<lparr>height = 8, width = 8, moves_made = {|(2, 2)|}, mines = {||}, safes = {|(2, 2)|},
      knowledge =
        [\<lparr>cells = {|(1, 1), (1, 2), (1, 3), (2, 1), (2, 3), (3, 1), (3, 2), (3, 3)|},
          count = 1\<rparr>]\<rparr>"
  by code_simp

lemma first_game_call_2:
  "add_knowledge
     \<lparr>height = 8, width = 8, moves_made = {|(2, 2)|}, mines = {||}, safes = {|(2, 2)|},
      knowledge =
        [\<lparr>cells = {|(1, 1), (1, 2), (1, 3), (2, 1), (2, 3), (3, 1), (3, 2), (3, 3)|},
          count = 1\<rparr>]\<rparr>
     (0, 0) 3 =
     \<lparr>height = 8, width = 8, moves_made = {|(0, 0), (2, 2)|},
      mines = {|(0, 1), (1, 0), (1, 1)|}, safes = {|(0, 0), (2, 2)|},
      knowledge =
        [\<lparr>cells = {|(1, 2), (1, 3), (2, 1), (2, 3), (3, 1), (3, 2), (3, 3)|}, count = 0\<rparr>,
         \<lparr>cells = {||}, count = 0\<rparr>]\<rparr>"
  by code_simp

lemma first_game:
  "observe_all (MinesweeperAI_init 8 8) [((2, 2), 1), ((0, 0), 3)] =
     \<lparr>height = 8, width = 8, moves_made = {|(0, 0), (2, 2)|},
      mines = {|(0, 1), (1, 0), (1, 1)|}, safes = {|(0, 0), (2, 2)|},
      knowledge =
        [\<lparr>cells = {|(1, 2), (1, 3), (2, 1), (2, 3), (3, 1), (3, 2), (3, 3)|}, count = 0\<rparr>,
         \<lparr>cells = {||}, count = 0\<rparr>]\<rparr>"
  by (simp only: observe_all_def fold.simps o_apply id_apply fst_conv snd_conv
        first_game_call_1 first_game_call_2)

lemma second_game_truthful:
  "list_all (truthful (Minesweeper_init 8 8 [(0, 1), (2, 2)])) [((1, 1), 2), ((0, 0), 1)]"
  by code_simp

lemma second_game_call_1:
  "add_knowledge (MinesweeperAI_init 8 8) (1, 1) 2 =
     \<lparr>height = 8, width = 8, moves_made = {|(1, 1)|}, mines = {||}, safes = {|(1, 1)|},
      knowledge =
        [\<lparr>cells = {|(0, 0), (0, 1), (0, 2), (1, 0), (1, 2), (2, 0), (2, 1), (2, 2)|},
          count = 2\<rparr>]\<rparr>"
  by code_simp

lemma second_game_call_2:
  "add_knowledge
     \<lparr>height = 8, width = 8, moves_made = {|(1, 1)|}, mines = {||}, safes = {|(1, 1)|},
      knowledge =
        [\<lparr>cells = {|(0, 0), (0, 1), (0, 2), (1, 0), (1, 2), (2, 0), (2, 1), (2, 2)|},
          count = 2\<rparr>]\<rparr>
     (0, 0) 1 =
     \<lparr>height = 8, width = 8, moves_made = {|(0, 0), (1, 1)|}, mines = {||},
      safes = {|(0, 0), (1, 1)|},
      knowledge =
        [\<lparr>cells = {|(0, 1), (0, 2), (1, 0), (1, 2), (2, 0), (2, 1), (2, 2)|}, count = 2\<rparr>,
         \<lparr>cells = {|(0, 1), (1, 0)|}, count = 1\<rparr>]\<rparr>"
  by code_simp

lemma second_game:
  "observe_all (MinesweeperAI_init 8 8) [((1, 1), 2), ((0, 0), 1)] =
     \<lparr>height = 8, width = 8, moves_made = {|(0, 0), (1, 1)|}, mines = {||},
      safes = {|(0, 0), (1, 1)|},
      knowledge =
        [\<lparr>cells = {|(0, 1), (0, 2), (1, 0), (1, 2), (2, 0), (2, 1), (2, 2)|}, count = 2\<rparr>,
         \<lparr>cells = {|(0, 1), (1, 0)|}, count = 1\<rparr>]\<rparr>"
  by (simp only: observe_all_def fold.simps o_apply id_apply fst_conv snd_conv
        second_game_call_1 second_game_call_2)

section \<open>The order of the marking loops\<close>

text \<open>
  Marking two cells gives the same engine in either order, so walking the snapshot of a
  set in any order, each cell once, gives what \<open>mark_mines\<close> and \<open>mark_safes\<close> give.
\<close>

lemma sentence_mark_mine_commute:
  "sentence_mark_mine (sentence_mark_mine s a) b = sentence_mark_mine (sentence_mark_mine s b) a"
proof -
  have "cells s |-| {|a|} |-| {|b|} = cells s |-| {|b|} |-| {|a|}"
    by auto
  then show ?thesis
    by (auto simp: sentence_mark_mine_def)
qed

lemma sentence_mark_safe_commute:
  "sentence_mark_safe (sentence_mark_safe s a) b = sentence_mark_safe (sentence_mark_safe s b) a"
proof -
  have "cells s |-| {|a|} |-| {|b|} = cells s |-| {|b|} |-| {|a|}"
    by auto
  then show ?thesis
    by (auto simp: sentence_mark_safe_def)
qed

lemma mark_mine_commute: "mark_mine (mark_mine st a) b = mark_mine (mark_mine st b) a"
proof -
  have "finsert b (finsert a (mines st)) = finsert a (finsert b (mines st))"
    by auto
  moreover have "(\<lambda>s. sentence_mark_mine s b) \<circ> (\<lambda>s. sentence_mark_mine s a) =
      (\<lambda>s. sentence_mark_mine s a) \<circ> (\<lambda>s. sentence_mark_mine s b)"
    by (rule ext) (simp add: sentence_mark_mine_commute)
  ultimately show ?thesis
    by (simp add: mark_mine_def)
qed

lemma mark_safe_commute: "mark_safe (mark_safe st a) b = mark_safe (mark_safe st b) a"
proof -
  have "finsert b (finsert a (safes st)) = finsert a (finsert b (safes st))"
    by auto
  moreover have "(\<lambda>s. sentence_mark_safe s b) \<circ> (\<lambda>s. sentence_mark_safe s a) =
      (\<lambda>s. sentence_mark_safe s a) \<circ> (\<lambda>s. sentence_mark_safe s b)"
    by (rule ext) (simp add: sentence_mark_safe_commute)
  ultimately show ?thesis
    by (simp add: mark_safe_def)
qed

lemma fold_commuting_insort:
  assumes "\<And>a b st. f a (f b st) = f b (f a st)"
  shows "fold f (insort x xs) st = fold f (x # xs) st"
proof (induction xs arbitrary: st)
  case Nil
  show ?case by simp
next
  case (Cons y ys)
  show ?case
  proof (cases "x \<le> y")
    case True
    then show ?thesis by simp
  next
    case False
    then have "fold f (insort x (y # ys)) st = fold f (insort x ys) (f y st)"
      by simp
    also have "\<dots> = fold f (x # ys) (f y st)"
      by (rule Cons.IH)
    also have "\<dots> = fold f (x # y # ys) st"
      by (simp add: assms)
    finally show ?thesis .
  qed
qed

lemma fold_commuting_sort:
  assumes "\<And>a b st. f a (f b st) = f b (f a st)"
  shows "fold f (sort xs) st = fold f xs st"
proof (induction xs arbitrary: st)
  case Nil
  show ?case by simp
next
  case (Cons x xs)
  have "fold f (sort (x # xs)) st = fold f (insort x (sort xs)) st"
    by simp
  also have "\<dots> = fold f (x # sort xs) st"
    using assms by (rule fold_commuting_insort)
  also have "\<dots> = fold f (sort xs) (f x st)"
    by simp
  also have "\<dots> = fold f xs (f x st)"
    by (rule Cons.IH)
  finally show ?case by simp
qed

lemma mark_mines_any_order:
  assumes "distinct xs" and "fset_of_list xs = cs"
  shows "fold (\<lambda>c st. mark_mine st c) xs st = mark_mines st cs"
proof -
  from assms have "sorted_list_of_fset cs = sort xs"
    by (metis distinct_remdups_id fset_of_list.rep_eq sorted_list_of_fset.rep_eq sorted_list_of_set_sort_remdups)
  then show ?thesis
    by (simp add: mark_mines_def fold_commuting_sort mark_mine_commute)
qed

lemma mark_safes_any_order:
  assumes "distinct xs" and "fset_of_list xs = cs"
  shows "fold (\<lambda>c st. mark_safe st c) xs st = mark_safes st cs"
proof -
  from assms have "sorted_list_of_fset cs = sort xs"
    by (metis distinct_remdups_id fset_of_list.rep_eq sorted_list_of_fset.rep_eq sorted_list_of_set_sort_remdups)
  then show ?thesis
    by (simp add: mark_safes_def fold_commuting_sort mark_safe_commute)
qed

section \<open>The subset pass, case by case\<close>

lemma subset_inner_cases [case_names finished appended returned skipped]:
  assumes "\<And>set1 j kb. \<not> j < length kb \<Longrightarrow> P set1 j kb"
    and "\<And>set1 j kb. j < length kb \<Longrightarrow> appendable set1 (kb ! j) \<Longrightarrow>
           P set1 (Suc j) (kb @ [difference set1 (kb ! j)]) \<Longrightarrow> P set1 j kb"
    and "\<And>set1 j kb. j < length kb \<Longrightarrow> \<not> appendable set1 (kb ! j) \<Longrightarrow>
           blocking set1 (kb ! j) \<Longrightarrow> P set1 j kb"
    and "\<And>set1 j kb. j < length kb \<Longrightarrow> \<not> appendable set1 (kb ! j) \<Longrightarrow>
           \<not> blocking set1 (kb ! j) \<Longrightarrow> P set1 (Suc j) kb \<Longrightarrow> P set1 j kb"
  shows "P set1 j kb"
proof (induction set1 j kb rule: subset_inner.induct)
  case (1 set1 j kb)
  show ?case
  proof (cases "j < length kb")
    case False
    then show ?thesis by (rule assms(1))
  next
    case inside: True
    consider (a) "appendable set1 (kb ! j)"
      | (b) "\<not> appendable set1 (kb ! j)" "blocking set1 (kb ! j)"
      | (c) "\<not> appendable set1 (kb ! j)" "\<not> blocking set1 (kb ! j)"
      by blast
    then show ?thesis
    proof cases
      case a
      then have conds: "\<not> (count set1 = 0 \<or> count (kb ! j) = 0)" "cells set1 \<noteq> cells (kb ! j)"
          "\<not> (fcard (cells set1) = 0 \<or> fcard (cells (kb ! j)) = 0)" "cells set1 |\<subseteq>| cells (kb ! j)"
        unfolding appendable_def by argo+
      from assms(2) [OF inside a "1.IH"(4) [OF inside refl conds]] show ?thesis .
    next
      case b
      with inside show ?thesis by (rule assms(3))
    next
      case c
      then consider "count set1 = 0 \<or> count (kb ! j) = 0"
        | "\<not> (count set1 = 0 \<or> count (kb ! j) = 0)" "cells set1 = cells (kb ! j)"
        | "\<not> (count set1 = 0 \<or> count (kb ! j) = 0)" "cells set1 \<noteq> cells (kb ! j)"
          "fcard (cells set1) = 0 \<or> fcard (cells (kb ! j)) = 0"
        unfolding appendable_def blocking_def by argo
      then have "P set1 (Suc j) kb"
      proof cases
        case 1
        from "1.IH"(1) [OF inside refl 1] show ?thesis .
      next
        case 2
        from "1.IH"(2) [OF inside refl 2] show ?thesis .
      next
        case 3
        from "1.IH"(3) [OF inside refl 3] show ?thesis .
      qed
      with inside c show ?thesis by (rule assms(4))
    qed
  qed
qed

lemma subset_inner_append:
  "j < length kb \<Longrightarrow> appendable set1 (kb ! j) \<Longrightarrow>
   subset_inner set1 j kb = subset_inner set1 (Suc j) (kb @ [difference set1 (kb ! j)])"
  by (simp add: subset_inner_step)

lemma subset_inner_return:
  "j < length kb \<Longrightarrow> \<not> appendable set1 (kb ! j) \<Longrightarrow> blocking set1 (kb ! j) \<Longrightarrow>
   subset_inner set1 j kb = Returned kb"
  by (simp add: subset_inner_step)

lemma subset_inner_skip:
  "j < length kb \<Longrightarrow> \<not> appendable set1 (kb ! j) \<Longrightarrow> \<not> blocking set1 (kb ! j) \<Longrightarrow>
   subset_inner set1 j kb = subset_inner set1 (Suc j) kb"
  by (simp add: subset_inner_step)

lemma subset_inner_preserves:
  assumes closed: "\<And>b. Q b \<Longrightarrow> cells set1 |\<subseteq>| cells b \<Longrightarrow> Q (difference set1 b)"
  shows "\<forall>s \<in> set kb. Q s \<Longrightarrow> \<forall>s \<in> set (flow_result (subset_inner set1 j kb)). Q s"
  using closed
proof (induction set1 j kb rule: subset_inner_cases)
  case (finished set1 j kb)
  then show ?case by (simp add: subset_inner_end)
next
  case (appended set1 j kb)
  from appended.hyps have "cells set1 |\<subseteq>| cells (kb ! j)"
    by (simp add: appendable_def)
  with appended.prems appended.hyps(1) have "Q (difference set1 (kb ! j))"
    by simp
  with appended show ?case
    by (simp add: subset_inner_append)
next
  case (returned set1 j kb)
  then show ?case by (simp add: subset_inner_return)
next
  case (skipped set1 j kb)
  then show ?case by (simp add: subset_inner_skip)
qed

lemma subset_pass_preserves:
  assumes closed: "\<And>a b. Q a \<Longrightarrow> Q b \<Longrightarrow> cells a |\<subseteq>| cells b \<Longrightarrow> Q (difference a b)"
  shows "\<forall>s \<in> set kb. Q s \<Longrightarrow> \<forall>s \<in> set (subset_pass i kb). Q s"
proof (induction i kb rule: subset_pass.induct)
  case (1 i kb)
  show ?case
  proof (cases "i < length kb")
    case False
    with "1.prems" show ?thesis
      by (subst subset_pass.simps) simp
  next
    case True
    with "1.prems" have "Q (kb ! i)" by simp
    with closed have "\<And>b. Q b \<Longrightarrow> cells (kb ! i) |\<subseteq>| cells b \<Longrightarrow> Q (difference (kb ! i) b)"
      by blast
    from subset_inner_preserves [of Q "kb ! i", OF this "1.prems"]
    have inner: "\<forall>s \<in> set (flow_result (subset_inner (kb ! i) 0 kb)). Q s" .
    show ?thesis
    proof (cases "subset_inner (kb ! i) 0 kb")
      case (Returned kb')
      with True inner show ?thesis
        by (subst subset_pass.simps) simp
    next
      case (Completed kb')
      with inner have "\<forall>s \<in> set kb'. Q s" by simp
      from "1.IH" [OF True Completed this] True Completed show ?thesis
        by (subst subset_pass.simps) simp
    qed
  qed
qed


section \<open>Resolved cells stay out of the sentences\<close>

lemma cells_sentence_mark_mine [simp]: "cells (sentence_mark_mine s c) = cells s |-| {|c|}"
  by (auto simp: sentence_mark_mine_def)

lemma cells_sentence_mark_safe [simp]: "cells (sentence_mark_safe s c) = cells s |-| {|c|}"
  by (auto simp: sentence_mark_safe_def)

lemma resolved_apart_mark_mine: "resolved_apart st \<Longrightarrow> resolved_apart (mark_mine st c)"
  unfolding resolved_apart_def mark_mine_def by fastforce

lemma resolved_apart_mark_safe: "resolved_apart st \<Longrightarrow> resolved_apart (mark_safe st c)"
  unfolding resolved_apart_def mark_safe_def by fastforce

lemma resolved_apart_mark_mines: "resolved_apart st \<Longrightarrow> resolved_apart (mark_mines st cs)"
proof -
  have "resolved_apart st \<Longrightarrow> resolved_apart (fold (\<lambda>c st. mark_mine st c) xs st)" for xs
    by (induction xs arbitrary: st) (simp_all add: resolved_apart_mark_mine)
  then show "resolved_apart st \<Longrightarrow> resolved_apart (mark_mines st cs)"
    by (simp add: mark_mines_def)
qed

lemma resolved_apart_mark_safes: "resolved_apart st \<Longrightarrow> resolved_apart (mark_safes st cs)"
proof -
  have "resolved_apart st \<Longrightarrow> resolved_apart (fold (\<lambda>c st. mark_safe st c) xs st)" for xs
    by (induction xs arbitrary: st) (simp_all add: resolved_apart_mark_safe)
  then show "resolved_apart st \<Longrightarrow> resolved_apart (mark_safes st cs)"
    by (simp add: mark_safes_def)
qed

lemma resolved_apart_resolve_at: "resolved_apart st \<Longrightarrow> resolved_apart (resolve_at i st)"
  by (simp add: resolve_at_def Let_def resolved_apart_mark_mines resolved_apart_mark_safes)

lemma resolved_apart_direct_pass: "resolved_apart st \<Longrightarrow> resolved_apart (direct_pass i st)"
proof (induction i st rule: direct_pass.induct)
  case (1 i st)
  then show ?case
    by (subst direct_pass.simps) (simp add: resolved_apart_resolve_at)
qed

lemma fold_scan_neighbour:
  "fold (scan_neighbour st) xs acc =
     (fst acc |\<union>| fset_of_list (filter (\<lambda>c. in_bounds st c \<and> c |\<notin>| mines st \<and> c |\<notin>| safes st) xs),
      snd acc - int (length (filter (\<lambda>c. c |\<in>| mines st) xs)))"
  by (induction xs arbitrary: acc) (auto simp: scan_neighbour_def Let_def)

lemma new_sentence_eq:
  "new_sentence st c n =
     \<lparr>cells = fset_of_list (filter (\<lambda>c. in_bounds st c \<and> c |\<notin>| mines st \<and> c |\<notin>| safes st)
                               (neighbours c)),
      count = n - int (length (filter (\<lambda>c. c |\<in>| mines st) (neighbours c)))\<rparr>"
  by (simp add: new_sentence_def Let_def fold_scan_neighbour)

lemma resolved_apart_subset_pass:
  assumes "resolved_apart st"
  shows "resolved_apart (st\<lparr>knowledge := subset_pass 0 (knowledge st)\<rparr>)"
proof -
  let ?Q = "\<lambda>s. cells s |\<inter>| (mines st |\<union>| safes st) = {||}"
  have "\<forall>s \<in> set (subset_pass 0 (knowledge st)). ?Q s"
  proof (rule subset_pass_preserves)
    show "?Q (difference a b)" if "?Q a" "?Q b" for a b
      using that by (auto simp: difference_def)
    show "\<forall>s \<in> set (knowledge st). ?Q s"
      using assms by (simp add: resolved_apart_def)
  qed
  then show ?thesis
    by (simp add: resolved_apart_def)
qed

lemma resolved_apart_add_knowledge:
  assumes "resolved_apart st"
  shows "resolved_apart (add_knowledge st c n)"
proof -
  let ?st1 = "st\<lparr>moves_made := finsert c (moves_made st)\<rparr>"
  let ?st2 = "mark_safe ?st1 c"
  let ?st3 = "?st2\<lparr>knowledge := knowledge ?st2 @ [new_sentence ?st2 c n]\<rparr>"
  from assms have "resolved_apart ?st1"
    by (simp add: resolved_apart_def)
  then have two: "resolved_apart ?st2"
    by (rule resolved_apart_mark_safe)
  have "cells (new_sentence ?st2 c n) |\<inter>| (mines ?st2 |\<union>| safes ?st2) = {||}"
    unfolding new_sentence_eq by (auto simp: fset_of_list_elem)
  with two have "resolved_apart ?st3"
    by (simp add: resolved_apart_def)
  then have "resolved_apart (direct_pass 0 ?st3)"
    by (rule resolved_apart_direct_pass)
  then have "resolved_apart ((direct_pass 0 ?st3)\<lparr>knowledge := subset_pass 0 (knowledge (direct_pass 0 ?st3))\<rparr>)"
    by (rule resolved_apart_subset_pass)
  then show ?thesis
    by (simp add: add_knowledge_def Let_def)
qed

lemma resolved_apart_observe_all:
  "resolved_apart st \<Longrightarrow> resolved_apart (observe_all st obs)"
  unfolding observe_all_def
  by (induction obs arbitrary: st) (simp_all add: resolved_apart_add_knowledge)

lemma resolved_apart_init: "resolved_apart (MinesweeperAI_init h w)"
  by (simp add: resolved_apart_def MinesweeperAI_init_def)


text \<open>
  C5: after any sequence of \<open>add_knowledge\<close> calls on a fresh engine, with truthful counts
  or not, a cell that is a member of a sentence of the knowledge base is neither in
  \<open>mines\<close> nor in \<open>safes\<close>.
\<close>

theorem known_cells_not_in_sentences:
  assumes "s \<in> set (knowledge (observe_all (MinesweeperAI_init h w) obs))"
    and "c |\<in>| cells s"
  shows "c |\<notin>| mines (observe_all (MinesweeperAI_init h w) obs) \<and>
         c |\<notin>| safes (observe_all (MinesweeperAI_init h w) obs)"
proof -
  have "resolved_apart (observe_all (MinesweeperAI_init h w) obs)"
    by (simp add: resolved_apart_observe_all resolved_apart_init)
  with assms show ?thesis
    unfolding resolved_apart_def by fastforce
qed

theorem known_cells_not_in_sentences_witness:
  "\<lparr>cells = {|(1, 2), (1, 3), (2, 1), (2, 3), (3, 1), (3, 2), (3, 3)|}, count = 0\<rparr>
     \<in> set (knowledge (observe_all (MinesweeperAI_init 8 8) [((2, 2), 1), ((0, 0), 3)])) \<and>
   (1, 2) |\<in>| cells \<lparr>cells = {|(1, 2), (1, 3), (2, 1), (2, 3), (3, 1), (3, 2), (3, 3)|}, count = 0\<rparr> \<and>
   (1, 2) |\<notin>| mines (observe_all (MinesweeperAI_init 8 8) [((2, 2), 1), ((0, 0), 3)]) \<and>
   (1, 2) |\<notin>| safes (observe_all (MinesweeperAI_init 8 8) [((2, 2), 1), ((0, 0), 3)])"
proof -
  let ?s = "\<lparr>cells = {|(1, 2), (1, 3), (2, 1), (2, 3), (3, 1), (3, 2), (3, 3)|}, count = 0\<rparr>"
  have held: "?s \<in> set (knowledge (observe_all (MinesweeperAI_init 8 8) [((2, 2), 1), ((0, 0), 3)]))"
    by (simp add: first_game)
  have member: "(1, 2) |\<in>| cells ?s"
    by simp
  from known_cells_not_in_sentences [OF held member] held member show ?thesis
    by blast
qed

section \<open>Truthful observations keep the knowledge sound\<close>

lemma sound_sentence_mark_safe:
  "sound_sentence g s \<Longrightarrow> c \<notin> mine_cells g \<Longrightarrow> sound_sentence g (sentence_mark_safe s c)"
proof -
  assume a: "sound_sentence g s" "c \<notin> mine_cells g"
  then have "(fset (cells s) - {c}) \<inter> mine_cells g = fset (cells s) \<inter> mine_cells g"
    by auto
  with a show ?thesis
    by (simp add: sound_sentence_def sentence_mark_safe_def)
qed

lemma sound_sentence_mark_mine:
  "sound_sentence g s \<Longrightarrow> c \<in> mine_cells g \<Longrightarrow> sound_sentence g (sentence_mark_mine s c)"
proof -
  assume a: "sound_sentence g s" "c \<in> mine_cells g"
  show ?thesis
  proof (cases "c |\<in>| cells s")
    case False
    with a show ?thesis by (simp add: sentence_mark_mine_def)
  next
    case True
    let ?A = "fset (cells s) \<inter> mine_cells g"
    from True a have mem: "c \<in> ?A" by simp
    have fin: "finite ?A" by simp
    have "(fset (cells s) - {c}) \<inter> mine_cells g = ?A - {c}" by auto
    moreover have "int (card (?A - {c})) = int (card ?A) - 1"
    proof -
      from mem fin have "0 < card ?A"
        by (auto simp: card_gt_0_iff)
      moreover from mem have "card (?A - {c}) = card ?A - 1"
        by (simp add: card_Diff_singleton)
      ultimately show ?thesis by simp
    qed
    ultimately show ?thesis
      using True a by (simp add: sound_sentence_def sentence_mark_mine_def)
  qed
qed

lemma sound_mark_safe: "sound g st \<Longrightarrow> c \<notin> mine_cells g \<Longrightarrow> sound g (mark_safe st c)"
  by (auto simp: sound_def mark_safe_def sound_sentence_mark_safe)

lemma sound_mark_mine: "sound g st \<Longrightarrow> c \<in> mine_cells g \<Longrightarrow> sound g (mark_mine st c)"
  by (auto simp: sound_def mark_mine_def sound_sentence_mark_mine)

lemma sound_mark_safes:
  assumes "sound g st" and "fset cs \<inter> mine_cells g = {}"
  shows "sound g (mark_safes st cs)"
proof -
  have "sound g st \<Longrightarrow> set xs \<inter> mine_cells g = {} \<Longrightarrow>
        sound g (fold (\<lambda>c st. mark_safe st c) xs st)" for xs
    by (induction xs arbitrary: st) (simp_all add: sound_mark_safe)
  with assms show ?thesis
    by (simp add: mark_safes_def)
qed

lemma sound_mark_mines:
  assumes "sound g st" and "fset cs \<subseteq> mine_cells g"
  shows "sound g (mark_mines st cs)"
proof -
  have "sound g st \<Longrightarrow> set xs \<subseteq> mine_cells g \<Longrightarrow>
        sound g (fold (\<lambda>c st. mark_mine st c) xs st)" for xs
    by (induction xs arbitrary: st) (simp_all add: sound_mark_mine)
  with assms show ?thesis
    by (simp add: mark_mines_def)
qed

lemma sound_sentence_all_mines:
  assumes "sound_sentence g s" and "int (fcard (cells s)) = count s"
  shows "fset (cells s) \<subseteq> mine_cells g"
proof -
  from assms have "card (fset (cells s) \<inter> mine_cells g) = card (fset (cells s))"
    by (simp add: sound_sentence_def fcard.rep_eq)
  then have "fset (cells s) \<inter> mine_cells g = fset (cells s)"
    by (intro card_subset_eq) simp_all
  then show ?thesis by blast
qed

lemma sound_sentence_no_mines:
  assumes "sound_sentence g s" and "count s = 0"
  shows "fset (cells s) \<inter> mine_cells g = {}"
  using assms by (simp add: sound_sentence_def)

lemma sound_resolve_at:
  assumes "sound g st" and "i < length (knowledge st)"
  shows "sound g (resolve_at i st)"
proof -
  let ?s = "knowledge st ! i"
  from assms have s: "sound_sentence g ?s"
    by (simp add: sound_def)
  show ?thesis
  proof (cases "int (fcard (cells ?s)) = count ?s \<and> count ?s \<noteq> 0")
    case True
    with s have "fset (cells ?s) \<subseteq> mine_cells g"
      by (simp add: sound_sentence_all_mines)
    with assms(1) have "sound g (mark_mines st (cells ?s))"
      by (rule sound_mark_mines)
    with True assms(1) show ?thesis
      by (simp add: resolve_at_def Let_def known_mines_def known_safes_def)
  next
    case False
    show ?thesis
    proof (cases "count ?s = 0")
      case True
      with s have "fset (cells ?s) \<inter> mine_cells g = {}"
        by (rule sound_sentence_no_mines)
      with assms(1) have "sound g (mark_safes st (cells ?s))"
        by (rule sound_mark_safes)
      with True False assms(1) show ?thesis
        by (simp add: resolve_at_def Let_def known_mines_def known_safes_def)
    next
      case nz: False
      with False assms(1) show ?thesis
        by (simp add: resolve_at_def Let_def known_mines_def known_safes_def)
    qed
  qed
qed

lemma sound_direct_pass: "sound g st \<Longrightarrow> sound g (direct_pass i st)"
proof (induction i st rule: direct_pass.induct)
  case (1 i st)
  then show ?case
    by (subst direct_pass.simps) (simp add: sound_resolve_at)
qed

lemma sound_sentence_difference:
  assumes "sound_sentence g a" and "sound_sentence g b" and "cells a |\<subseteq>| cells b"
  shows "sound_sentence g (difference a b)"
proof -
  let ?A = "fset (cells a) \<inter> mine_cells g" and ?B = "fset (cells b) \<inter> mine_cells g"
  from assms(3) have sub: "?A \<subseteq> ?B"
    by (auto simp: less_eq_fset.rep_eq)
  have "(fset (cells b) - fset (cells a)) \<inter> mine_cells g = ?B - ?A"
    by auto
  moreover from sub have "int (card (?B - ?A)) = int (card ?B) - int (card ?A)"
    by (simp add: card_Diff_subset card_mono)
  ultimately show ?thesis
    using assms(1,2) by (simp add: sound_sentence_def difference_def)
qed

lemma sound_subset_pass:
  assumes "sound g st"
  shows "sound g (st\<lparr>knowledge := subset_pass 0 (knowledge st)\<rparr>)"
proof -
  have "\<forall>s \<in> set (subset_pass 0 (knowledge st)). sound_sentence g s"
  proof (rule subset_pass_preserves)
    show "sound_sentence g (difference a b)"
      if "sound_sentence g a" "sound_sentence g b" "cells a |\<subseteq>| cells b" for a b
      using that by (rule sound_sentence_difference)
    show "\<forall>s \<in> set (knowledge st). sound_sentence g s"
      using assms by (simp add: sound_def)
  qed
  with assms show ?thesis
    by (simp add: sound_def)
qed


lemma upto_three: "[i - 1 .. i + 1] = [i - 1, i, i + 1]" for i :: int
proof -
  have "[i - 1 .. i + 1] = (i - 1) # [i .. i + 1]"
    by (subst upto_rec1) simp_all
  also have "[i .. i + 1] = i # [i + 1 .. i + 1]"
    by (subst upto_rec1) simp_all
  finally show ?thesis by simp
qed

lemma neighbours_eq:
  "neighbours (a, b) =
     [(a - 1, b - 1), (a - 1, b), (a - 1, b + 1), (a, b - 1), (a, b + 1),
      (a + 1, b - 1), (a + 1, b), (a + 1, b + 1)]"
  by (simp add: neighbours_def upto_three)

lemma distinct_neighbours: "distinct (neighbours c)"
  by (cases c) (simp add: neighbours_eq)

lemma fold_count_neighbour_None: "fold (count_neighbour g) xs None = None"
  by (induction xs) (simp_all add: count_neighbour_def)

lemma fold_count_neighbour:
  "fold (count_neighbour g) xs (Some a) = Some n \<Longrightarrow> distinct xs \<Longrightarrow>
   n = a + int (card (set xs \<inter> mine_cells g))"
proof (induction xs arbitrary: a)
  case Nil
  then show ?case by simp
next
  case (Cons x xs)
  show ?case
  proof (cases "count_neighbour g x (Some a)")
    case None
    with Cons.prems show ?thesis
      by (simp add: fold_count_neighbour_None)
  next
    case (Some a')
    with Cons have n: "n = a' + int (card (set xs \<inter> mine_cells g))"
      by simp
    from Some have a': "a' = a + (if x \<in> mine_cells g then 1 else 0)"
      by (auto simp: count_neighbour_def mine_cells_def split: if_splits option.splits)
    from Cons.prems(2) have "x \<notin> set xs" by simp
    then have "card (set (x # xs) \<inter> mine_cells g) =
        (if x \<in> mine_cells g then 1 else 0) + card (set xs \<inter> mine_cells g)"
      by (simp add: Int_insert_left)
    with n a' show ?thesis by simp
  qed
qed

lemma nearby_mines_card:
  "nearby_mines g c = Some n \<Longrightarrow> n = int (card (set (neighbours c) \<inter> mine_cells g))"
  using fold_count_neighbour [of g "neighbours c" 0 n]
  by (simp add: nearby_mines_def distinct_neighbours)

lemma sound_new_sentence:
  assumes "sound g st" and "nearby_mines g c = Some n"
  shows "sound_sentence g (new_sentence st c n)"
proof -
  let ?N = "set (neighbours c)" and ?M = "mine_cells g"
  let ?K = "?N \<inter> fset (mines st)"
  from assms(1) have known: "fset (mines st) \<subseteq> ?M" "fset (safes st) \<inter> ?M = {}"
    and dims: "height st = board_height g" "width st = board_width g"
    by (simp_all add: sound_def)
  have bounds: "in_bounds st x" if "x \<in> ?M" for x
    using that dims by (simp add: mine_cells_def in_bounds_def)
  have "fset (cells (new_sentence st c n)) \<inter> ?M =
      {x \<in> ?N. in_bounds st x \<and> x |\<notin>| mines st \<and> x |\<notin>| safes st} \<inter> ?M"
    by (auto simp: new_sentence_eq fset_of_list.rep_eq)
  also have "\<dots> = (?N \<inter> ?M) - ?K"
    using known bounds by auto
  finally have cells_eq: "fset (cells (new_sentence st c n)) \<inter> ?M = (?N \<inter> ?M) - ?K" .
  have sub: "?K \<subseteq> ?N \<inter> ?M"
    using known by auto
  then have "int (card ((?N \<inter> ?M) - ?K)) = int (card (?N \<inter> ?M)) - int (card ?K)"
    by (simp add: card_Diff_subset card_mono)
  moreover have "length (filter (\<lambda>x. x |\<in>| mines st) (neighbours c)) = card ?K"
  proof -
    have "set (filter (\<lambda>x. x |\<in>| mines st) (neighbours c)) = ?K"
      by auto
    moreover have "distinct (filter (\<lambda>x. x |\<in>| mines st) (neighbours c))"
      by (simp add: distinct_neighbours)
    ultimately show ?thesis
      by (metis distinct_card)
  qed
  moreover have "count (new_sentence st c n) =
      n - int (length (filter (\<lambda>x. x |\<in>| mines st) (neighbours c)))"
    by (simp add: new_sentence_eq)
  ultimately show ?thesis
    using cells_eq nearby_mines_card [OF assms(2)] by (simp add: sound_sentence_def)
qed

lemma sound_add_knowledge:
  assumes "sound g st" and "truthful g (c, n)"
  shows "sound g (add_knowledge st c n)"
proof -
  let ?st1 = "st\<lparr>moves_made := finsert c (moves_made st)\<rparr>"
  let ?st2 = "mark_safe ?st1 c"
  let ?st3 = "?st2\<lparr>knowledge := knowledge ?st2 @ [new_sentence ?st2 c n]\<rparr>"
  from assms(2) have safe: "c \<notin> mine_cells g" and n: "nearby_mines g c = Some n"
    by (simp_all add: truthful_def mine_cells_def)
  from assms(1) have "sound g ?st1"
    by (simp add: sound_def)
  then have two: "sound g ?st2"
    using safe by (rule sound_mark_safe)
  then have "sound_sentence g (new_sentence ?st2 c n)"
    using n by (rule sound_new_sentence)
  with two have "sound g ?st3"
    by (simp add: sound_def)
  then have "sound g (direct_pass 0 ?st3)"
    by (rule sound_direct_pass)
  then have "sound g ((direct_pass 0 ?st3)\<lparr>knowledge := subset_pass 0 (knowledge (direct_pass 0 ?st3))\<rparr>)"
    by (rule sound_subset_pass)
  then show ?thesis
    by (simp add: add_knowledge_def Let_def)
qed

lemma sound_observe_all:
  "sound g st \<Longrightarrow> list_all (truthful g) obs \<Longrightarrow> sound g (observe_all st obs)"
  unfolding observe_all_def
proof (induction obs arbitrary: st)
  case Nil
  then show ?case by simp
next
  case (Cons ob obs)
  from Cons.prems have "truthful g (fst ob, snd ob)" by simp
  with Cons.prems(1) have "sound g (add_knowledge st (fst ob) (snd ob))"
    by (rule sound_add_knowledge)
  with Cons show ?case by simp
qed

lemma sound_init: "sound g (MinesweeperAI_init (board_height g) (board_width g))"
  by (simp add: sound_def MinesweeperAI_init_def)

text \<open>
  C4: after any sequence of \<open>add_knowledge\<close> calls on a fresh engine whose observations
  are truthful for one board of the engine's size, the count of every sentence of the
  knowledge base lies between 0 and the number of its cells.
\<close>

theorem counts_within_bounds:
  assumes "list_all (truthful g) obs"
    and "s \<in> set (knowledge (observe_all (MinesweeperAI_init (board_height g) (board_width g)) obs))"
  shows "0 \<le> count s \<and> count s \<le> int (fcard (cells s))"
proof -
  from sound_observe_all [OF sound_init assms(1)] assms(2) have "sound_sentence g s"
    by (simp add: sound_def)
  moreover have "card (fset (cells s) \<inter> mine_cells g) \<le> card (fset (cells s))"
    by (intro card_mono) simp_all
  ultimately show ?thesis
    by (simp add: sound_sentence_def fcard.rep_eq)
qed

theorem counts_within_bounds_witness:
  "list_all (truthful (Minesweeper_init 8 8 [(0, 1), (2, 2)])) [((1, 1), 2), ((0, 0), 1)] \<and>
   \<lparr>cells = {|(0, 1), (1, 0)|}, count = 1\<rparr>
     \<in> set (knowledge (observe_all (MinesweeperAI_init 8 8) [((1, 1), 2), ((0, 0), 1)])) \<and>
   0 \<le> count \<lparr>cells = {|(0, 1), (1, 0)|}, count = 1\<rparr> \<and>
   count \<lparr>cells = {|(0, 1), (1, 0)|}, count = 1\<rparr> \<le> int (fcard (cells \<lparr>cells = {|(0, 1), (1, 0)|}, count = 1\<rparr>))"
proof -
  let ?g = "Minesweeper_init 8 8 [(0, 1), (2, 2)]"
  let ?s = "\<lparr>cells = {|(0, 1), (1, 0)|}, count = 1\<rparr>"
  have held: "?s \<in> set (knowledge (observe_all
      (MinesweeperAI_init (board_height ?g) (board_width ?g)) [((1, 1), 2), ((0, 0), 1)]))"
    by (simp add: second_game)
  from counts_within_bounds [OF second_game_truthful held] second_game_truthful held
  show ?thesis
    by simp
qed

text \<open>
  C6: after any sequence of \<open>add_knowledge\<close> calls on a fresh engine whose observations
  are truthful for one board of the engine's size, \<open>mines\<close> and \<open>safes\<close> have no cell in
  common.
\<close>

theorem known_mines_safes_disjoint:
  assumes "list_all (truthful g) obs"
  shows "mines (observe_all (MinesweeperAI_init (board_height g) (board_width g)) obs) |\<inter>|
         safes (observe_all (MinesweeperAI_init (board_height g) (board_width g)) obs) = {||}"
proof -
  let ?st = "observe_all (MinesweeperAI_init (board_height g) (board_width g)) obs"
  from sound_observe_all [OF sound_init assms] have
    "fset (mines ?st) \<subseteq> mine_cells g" "fset (safes ?st) \<inter> mine_cells g = {}"
    by (simp_all add: sound_def)
  then have "fset (mines ?st) \<inter> fset (safes ?st) = {}"
    by blast
  then show ?thesis
    by (metis bot_fset.rep_eq fset_inject inf_fset.rep_eq)
qed

theorem known_mines_safes_disjoint_witness:
  "list_all (truthful (Minesweeper_init 8 8 [(0, 1), (1, 0), (1, 1)])) [((2, 2), 1), ((0, 0), 3)] \<and>
   mines (observe_all (MinesweeperAI_init 8 8) [((2, 2), 1), ((0, 0), 3)]) = {|(0, 1), (1, 0), (1, 1)|} \<and>
   safes (observe_all (MinesweeperAI_init 8 8) [((2, 2), 1), ((0, 0), 3)]) = {|(0, 0), (2, 2)|} \<and>
   mines (observe_all (MinesweeperAI_init 8 8) [((2, 2), 1), ((0, 0), 3)]) |\<inter>|
     safes (observe_all (MinesweeperAI_init 8 8) [((2, 2), 1), ((0, 0), 3)]) = {||}"
proof -
  have "mines (observe_all (MinesweeperAI_init 8 8) [((2, 2), 1), ((0, 0), 3)]) |\<inter>|
     safes (observe_all (MinesweeperAI_init 8 8) [((2, 2), 1), ((0, 0), 3)]) = {||}"
    using known_mines_safes_disjoint [OF first_game_truthful] by simp
  moreover have "mines (observe_all (MinesweeperAI_init 8 8) [((2, 2), 1), ((0, 0), 3)]) =
      {|(0, 1), (1, 0), (1, 1)|}"
    and "safes (observe_all (MinesweeperAI_init 8 8) [((2, 2), 1), ((0, 0), 3)]) = {|(0, 0), (2, 2)|}"
    by (simp_all add: first_game)
  ultimately show ?thesis
    using first_game_truthful by blast
qed

section \<open>What a single call leaves undone\<close>

text \<open>
  C1 (the code falls short of it): \<open>add_knowledge\<close> makes one pass of step 4 and one pass
  of step 5. In the first game, whose observations are truthful, the second call returns
  with a sentence of count 0 that still holds seven cells, none of them in \<open>safes\<close>;
  running step 4 once more puts all seven there. The state the call returns is not a fixed
  point.
\<close>

theorem add_knowledge_leaves_resolvable_sentence:
  "list_all (truthful (Minesweeper_init 8 8 [(0, 1), (1, 0), (1, 1)])) [((2, 2), 1), ((0, 0), 3)] \<and>
   knowledge (observe_all (MinesweeperAI_init 8 8) [((2, 2), 1), ((0, 0), 3)]) =
     [\<lparr>cells = {|(1, 2), (1, 3), (2, 1), (2, 3), (3, 1), (3, 2), (3, 3)|}, count = 0\<rparr>,
      \<lparr>cells = {||}, count = 0\<rparr>] \<and>
   safes (observe_all (MinesweeperAI_init 8 8) [((2, 2), 1), ((0, 0), 3)]) = {|(0, 0), (2, 2)|} \<and>
   safes (direct_pass 0 (observe_all (MinesweeperAI_init 8 8) [((2, 2), 1), ((0, 0), 3)])) =
     {|(0, 0), (2, 2), (1, 2), (1, 3), (2, 1), (2, 3), (3, 1), (3, 2), (3, 3)|}"
proof -
  have "safes (direct_pass 0
     \<lparr>height = 8, width = 8, moves_made = {|(0, 0), (2, 2)|},
      mines = {|(0, 1), (1, 0), (1, 1)|}, safes = {|(0, 0), (2, 2)|},
      knowledge =
        [\<lparr>cells = {|(1, 2), (1, 3), (2, 1), (2, 3), (3, 1), (3, 2), (3, 3)|}, count = 0\<rparr>,
         \<lparr>cells = {||}, count = 0\<rparr>]\<rparr>) =
     {|(0, 0), (2, 2), (1, 2), (1, 3), (2, 1), (2, 3), (3, 1), (3, 2), (3, 3)|}"
    by code_simp
  with first_game_truthful show ?thesis
    by (simp add: first_game)
qed

text \<open>
  C2 (the code falls short of it): the inner loop of step 5 returns from \<open>add_knowledge\<close>
  at the first pair that passes the three \<open>continue\<close> tests and is not a subset pair. In
  the second game, whose observations are truthful, the knowledge base ends as B (seven
  cells, count 2) followed by A (\<open>{(0, 1), (1, 0)}\<close>, count 1). A's cells lie inside B's
  and the pair passes every test of step 5, but the outer loop starts at B, meets A, and
  returns: the difference of B and A (five cells, count 1) is not in the knowledge base,
  and a further pass of step 5 does not add it.
\<close>

theorem subset_pass_returns_early:
  "list_all (truthful (Minesweeper_init 8 8 [(0, 1), (2, 2)])) [((1, 1), 2), ((0, 0), 1)] \<and>
   knowledge (observe_all (MinesweeperAI_init 8 8) [((1, 1), 2), ((0, 0), 1)]) =
     [\<lparr>cells = {|(0, 1), (0, 2), (1, 0), (1, 2), (2, 0), (2, 1), (2, 2)|}, count = 2\<rparr>,
      \<lparr>cells = {|(0, 1), (1, 0)|}, count = 1\<rparr>] \<and>
   appendable \<lparr>cells = {|(0, 1), (1, 0)|}, count = 1\<rparr>
     \<lparr>cells = {|(0, 1), (0, 2), (1, 0), (1, 2), (2, 0), (2, 1), (2, 2)|}, count = 2\<rparr> \<and>
   difference \<lparr>cells = {|(0, 1), (1, 0)|}, count = 1\<rparr>
       \<lparr>cells = {|(0, 1), (0, 2), (1, 0), (1, 2), (2, 0), (2, 1), (2, 2)|}, count = 2\<rparr> =
     \<lparr>cells = {|(0, 2), (1, 2), (2, 0), (2, 1), (2, 2)|}, count = 1\<rparr> \<and>
   difference \<lparr>cells = {|(0, 1), (1, 0)|}, count = 1\<rparr>
       \<lparr>cells = {|(0, 1), (0, 2), (1, 0), (1, 2), (2, 0), (2, 1), (2, 2)|}, count = 2\<rparr>
     \<notin> set (knowledge (observe_all (MinesweeperAI_init 8 8) [((1, 1), 2), ((0, 0), 1)])) \<and>
   subset_pass 0 (knowledge (observe_all (MinesweeperAI_init 8 8) [((1, 1), 2), ((0, 0), 1)])) =
     knowledge (observe_all (MinesweeperAI_init 8 8) [((1, 1), 2), ((0, 0), 1)])"
proof -
  let ?A = "\<lparr>cells = {|(0, 1), (1, 0)|}, count = 1\<rparr>"
  let ?B = "\<lparr>cells = {|(0, 1), (0, 2), (1, 0), (1, 2), (2, 0), (2, 1), (2, 2)|}, count = 2\<rparr>"
  have eligible: "appendable ?A ?B"
    by code_simp
  have diff: "difference ?A ?B =
      \<lparr>cells = {|(0, 2), (1, 2), (2, 0), (2, 1), (2, 2)|}, count = 1\<rparr>"
    by code_simp
  have absent: "difference ?A ?B \<notin> set [?B, ?A]"
    by code_simp
  have again: "subset_pass 0 [?B, ?A] = [?B, ?A]"
    by code_simp
  from second_game_truthful eligible diff absent again show ?thesis
    by (simp only: second_game minesweeper_ai.simps simp_thms)
qed

text \<open>
  C3 (the code falls short of it): with the knowledge base holding \<open>{(0, 0), (0, 1)} = 1\<close>
  and then \<open>{(0, 0)} = 1\<close>, a call of \<open>add_knowledge\<close> for the far corner marks
  \<open>(0, 0)\<close> as a mine when step 4 reaches the second sentence; the first sentence, already
  visited, becomes \<open>{(0, 1)} = 0\<close> and stays so: \<open>(0, 1)\<close> is not in \<open>safes\<close> when the
  call returns. Step 5 alone, on the two sentences, appends nothing. The same pair of
  sentences, on other cells, arises in play: on a board of one row and four columns with
  its mine at \<open>(0, 2)\<close>, the truthful observations \<open>((0, 1), 1)\<close> and \<open>((0, 3), 1)\<close>
  give \<open>{(0, 0), (0, 2)} = 1\<close> and then \<open>{(0, 2)} = 1\<close>, and the second call returns
  with \<open>{(0, 0)} = 0\<close> in the knowledge base and \<open>(0, 0)\<close> not in \<open>safes\<close>.
\<close>

theorem scenario_subset_not_resolved:
  "add_knowledge
      \<lparr>height = 8, width = 8, moves_made = {||}, mines = {||}, safes = {||},
        knowledge =
          [\<lparr>cells = {|(0, 0), (0, 1)|}, count = 1\<rparr>, \<lparr>cells = {|(0, 0)|}, count = 1\<rparr>]\<rparr>
      (7, 7) 0 =
     \<lparr>height = 8, width = 8, moves_made = {|(7, 7)|}, mines = {|(0, 0)|},
       safes = {|(6, 6), (6, 7), (7, 6), (7, 7)|},
       knowledge =
         [\<lparr>cells = {|(0, 1)|}, count = 0\<rparr>, \<lparr>cells = {||}, count = 0\<rparr>,
          \<lparr>cells = {||}, count = 0\<rparr>]\<rparr> \<and>
   subset_pass 0 [\<lparr>cells = {|(0, 0), (0, 1)|}, count = 1\<rparr>, \<lparr>cells = {|(0, 0)|}, count = 1\<rparr>] =
     [\<lparr>cells = {|(0, 0), (0, 1)|}, count = 1\<rparr>, \<lparr>cells = {|(0, 0)|}, count = 1\<rparr>] \<and>
   list_all (truthful (Minesweeper_init 1 4 [(0, 2)])) [((0, 1), 1), ((0, 3), 1)] \<and>
   add_knowledge (MinesweeperAI_init 1 4) (0, 1) 1 =
     \<lparr>height = 1, width = 4, moves_made = {|(0, 1)|}, mines = {||}, safes = {|(0, 1)|},
       knowledge = [\<lparr>cells = {|(0, 0), (0, 2)|}, count = 1\<rparr>]\<rparr> \<and>
   new_sentence
      \<lparr>height = 1, width = 4, moves_made = {|(0, 1), (0, 3)|}, mines = {||},
        safes = {|(0, 1), (0, 3)|},
        knowledge = [\<lparr>cells = {|(0, 0), (0, 2)|}, count = 1\<rparr>]\<rparr>
      (0, 3) 1 = \<lparr>cells = {|(0, 2)|}, count = 1\<rparr> \<and>
   add_knowledge
      \<lparr>height = 1, width = 4, moves_made = {|(0, 1)|}, mines = {||}, safes = {|(0, 1)|},
        knowledge = [\<lparr>cells = {|(0, 0), (0, 2)|}, count = 1\<rparr>]\<rparr>
      (0, 3) 1 =
     \<lparr>height = 1, width = 4, moves_made = {|(0, 1), (0, 3)|}, mines = {|(0, 2)|},
       safes = {|(0, 1), (0, 3)|},
       knowledge = [\<lparr>cells = {|(0, 0)|}, count = 0\<rparr>, \<lparr>cells = {||}, count = 0\<rparr>]\<rparr>"
  by code_simp

end
